theory Spec2Isabelle
  imports Main "HOL-Library.Char_ord" "HOL-Library.List_Lexorder"
begin

section \<open>The autograder harness of \<^verbatim>\<open>ml_example.py\<close>\<close>

text \<open>
  The development embeds the scored-test \<^verbatim>\<open>Tracker\<close>, the driver \<^verbatim>\<open>main\<close> and the graph
  tracer \<^verbatim>\<open>trace_node\<close>. Question ids and test names are Python strings, point values are
  Python integers. A Python attribute that may hold \<^verbatim>\<open>None\<close> is an \<open>option\<close>; a dict is a
  partial map. Every \<^verbatim>\<open>assert\<close>, missing key and arithmetic on \<^verbatim>\<open>None\<close> is a branch that
  raises, and a raise carries the state as mutated up to that statement.
\<close>

subsection \<open>Interpreter state\<close>

text \<open>
  \<^verbatim>\<open>sys.stdout\<close> is either the process's real output stream or a \<^verbatim>\<open>WritableNull\<close> object
  (whose \<^verbatim>\<open>write\<close> is \<^verbatim>\<open>pass\<close>). \<open>printed\<close> is the log of the \<^verbatim>\<open>print\<close> calls made so
  far, each line with the value of \<^verbatim>\<open>sys.stdout\<close> it was written to; \<open>console\<close> reads
  off the lines that reached the real stream.
\<close>

datatype sink = Console | WritableNull

datatype exn =
    AssertionError
  | KeyError
  | TypeError
  | KeyboardInterrupt
  | SystemExit int
  | OtherException string

record tracker =
  questions :: "string list"
  maxes :: "string \<rightharpoonup> int"
  prereqs :: "string \<rightharpoonup> string set"
  points :: "string \<rightharpoonup> int"
  current_question :: "string option"
  current_test :: "string option"
  points_at_test_start :: "int option"
  possible_points_remaining :: "int option"
  mute_output :: bool
  original_stdout :: "sink option"
  muted :: bool

record pystate =
  trk :: tracker
  sys_stdout :: "sink option"
  printed :: "(sink option \<times> string) list"
  use_graphics :: bool

datatype 'a result = Return 'a pystate | Raise exn pystate

text \<open>Sequencing of two calls: an exception of the first skips the second.\<close>

fun and_then :: "'a result \<Rightarrow> ('a \<Rightarrow> pystate \<Rightarrow> 'b result) \<Rightarrow> 'b result" where
  "and_then (Return a s) f = f a s"
| "and_then (Raise e s) f = Raise e s"

text \<open>\<^verbatim>\<open>print(line)\<close>: a write to whatever \<^verbatim>\<open>sys.stdout\<close> currently is.\<close>

definition py_print :: "string \<Rightarrow> pystate \<Rightarrow> pystate" where
  "py_print line s = s\<lparr> printed := printed s @ [(sys_stdout s, line)] \<rparr>"

definition console :: "pystate \<Rightarrow> string list" where
  "console s = map snd (filter (\<lambda>w. fst w = Some Console) (printed s))"

text \<open>\<^verbatim>\<open>"{}".format(x)\<close> for an attribute that holds a string or \<^verbatim>\<open>None\<close>.\<close>

definition fmt :: "string option \<Rightarrow> string" where
  "fmt x = (case x of None \<Rightarrow> ''None'' | Some v \<Rightarrow> v)"

subsection \<open>Tracker\<close>

definition Tracker_init ::
  "string list \<Rightarrow> (string \<rightharpoonup> int) \<Rightarrow> (string \<rightharpoonup> string set) \<Rightarrow> bool \<Rightarrow> tracker" where
  "Tracker_init qs mx pre mo =
     \<lparr> questions = qs, maxes = mx, prereqs = pre,
       points = (\<lambda>q. if q \<in> set qs then Some 0 else None),
       current_question = None, current_test = None,
       points_at_test_start = None, possible_points_remaining = None,
       mute_output = mo, original_stdout = None, muted = False \<rparr>"

definition mute :: "pystate \<Rightarrow> unit result" where
  "mute s =
     (if muted (trk s) then Return () s
      else Return ()
        (s\<lparr> trk := (trk s)\<lparr> muted := True, original_stdout := sys_stdout s \<rparr>,
            sys_stdout := Some WritableNull \<rparr>))"

definition unmute :: "pystate \<Rightarrow> unit result" where
  "unmute s =
     (if \<not> muted (trk s) then Return () s
      else Return ()
        (s\<lparr> trk := (trk s)\<lparr> muted := False \<rparr>,
            sys_stdout := original_stdout (trk s) \<rparr>))"

definition begin_q :: "string \<Rightarrow> pystate \<Rightarrow> bool result" where
  "begin_q q s =
     (if q \<notin> set (questions (trk s)) then Raise AssertionError s
      else
        let s1 = s\<lparr> trk := (trk s)\<lparr> current_question := Some q \<rparr> \<rparr> in
        case maxes (trk s1) q of
          None \<Rightarrow> Raise KeyError s1
        | Some m \<Rightarrow>
            Return True (s1\<lparr> trk := (trk s1)\<lparr> possible_points_remaining := Some m \<rparr> \<rparr>))"

text \<open>\<^verbatim>\<open>self.points[self.current_question]\<close>: a \<^verbatim>\<open>KeyError\<close> when the current question is
  \<^verbatim>\<open>None\<close> or has no entry.\<close>

definition current_points :: "tracker \<Rightarrow> int option" where
  "current_points t =
     (case current_question t of None \<Rightarrow> None | Some q \<Rightarrow> points t q)"

definition begin_test :: "string \<Rightarrow> pystate \<Rightarrow> unit result" where
  "begin_test test_name s =
     (let s1 = s\<lparr> trk := (trk s)\<lparr> current_test := Some test_name \<rparr> \<rparr> in
      case current_points (trk s1) of
        None \<Rightarrow> Raise KeyError s1
      | Some p \<Rightarrow>
          let s2 = s1\<lparr> trk := (trk s1)\<lparr> points_at_test_start := Some p \<rparr> \<rparr>;
              s3 = py_print (''*** '' @ fmt (current_question (trk s2)) @ '') ''
                               @ fmt (current_test (trk s2))) s2
          in if mute_output (trk s3) then mute s3 else Return () s3)"

definition pass_line :: "string option \<Rightarrow> string" where
  "pass_line test_name = ''*** PASS: '' @ fmt test_name"

definition fail_line :: string where
  "fail_line = ''*** FAIL''"

definition end_test_body :: "int \<Rightarrow> pystate \<Rightarrow> unit result" where
  "end_test_body pts s1 =
     (case possible_points_remaining (trk s1) of
        None \<Rightarrow> Raise TypeError s1
      | Some r \<Rightarrow>
          (let s2 = s1\<lparr> trk := (trk s1)\<lparr> possible_points_remaining := Some (r - pts) \<rparr> \<rparr> in
           (case current_points (trk s2) of
              None \<Rightarrow> Raise KeyError s2
            | Some p \<Rightarrow>
                (case points_at_test_start (trk s2) of
                   None \<Rightarrow> Raise TypeError s2
                 | Some b \<Rightarrow>
                     (let s3 = (if p = b + pts
                                then py_print (pass_line (current_test (trk s2))) s2
                                else if p = b then py_print fail_line s2
                                else s2)
                      in Return ()
                           (s3\<lparr> trk := (trk s3)\<lparr> current_test := None,
                                                  points_at_test_start := None \<rparr> \<rparr>))))))"

definition end_test :: "int \<Rightarrow> pystate \<Rightarrow> unit result" where
  "end_test pts s =
     and_then (if mute_output (trk s) then unmute s else Return () s)
       (\<lambda>_. end_test_body pts)"

definition end_q :: "pystate \<Rightarrow> unit result" where
  "end_q s =
     (if current_question (trk s) = None then Raise AssertionError s
      else if possible_points_remaining (trk s) \<noteq> Some 0 then Raise AssertionError s
      else Return ()
        (s\<lparr> trk := (trk s)\<lparr> current_question := None,
                              possible_points_remaining := None \<rparr> \<rparr>))"

definition add_points :: "int \<Rightarrow> pystate \<Rightarrow> unit result" where
  "add_points pts s =
     (case current_question (trk s) of
        None \<Rightarrow> Raise KeyError s
      | Some q \<Rightarrow>
          (case points (trk s) q of
             None \<Rightarrow> Raise KeyError s
           | Some p \<Rightarrow>
               Return () (s\<lparr> trk := (trk s)\<lparr> points := (points (trk s))(q \<mapsto> p + pts) \<rparr> \<rparr>)))"

subsection \<open>Test registry and driver\<close>

text \<open>An entry of \<^verbatim>\<open>TESTS\<close>: question id, declared points, and the test function, which
  receives the tracker (and with it the interpreter state) and returns or raises.\<close>

type_synonym test = "string \<times> int \<times> (pystate \<Rightarrow> unit result)"

definition disable_graphics :: "pystate \<Rightarrow> pystate" where
  "disable_graphics s = s\<lparr> use_graphics := False \<rparr>"

text \<open>The first loop of \<^verbatim>\<open>main\<close>: the set of question ids, \<^verbatim>\<open>maxes\<close> and \<^verbatim>\<open>PREREQS\<close>.\<close>

fun collect ::
  "test list \<Rightarrow> string set \<times> (string \<rightharpoonup> int) \<times> (string \<rightharpoonup> string set) \<Rightarrow>
     string set \<times> (string \<rightharpoonup> int) \<times> (string \<rightharpoonup> string set)" where
  "collect [] acc = acc"
| "collect ((q, pts, f) # ts) (qs, mx, pre) =
     collect ts
       (insert q qs,
        mx(q \<mapsto> (case mx q of None \<Rightarrow> 0 | Some m \<Rightarrow> m) + pts),
        (if pre q = None then pre(q \<mapsto> {}) else pre))"

text \<open>The inner loop over \<^verbatim>\<open>TESTS\<close> for one question, with its \<^verbatim>\<open>try\<close>/\<^verbatim>\<open>except\<close>.
  \<^verbatim>\<open>sys.exit(1)\<close> raises \<^verbatim>\<open>SystemExit(1)\<close> from inside the handler.\<close>

fun run_tests :: "test list \<Rightarrow> string \<Rightarrow> pystate \<Rightarrow> unit result" where
  "run_tests [] q s = Return () s"
| "run_tests ((testq, pts, f) # ts) q s =
     (if testq \<noteq> q then run_tests ts q s
      else
        (case f s of
           Return _ s' \<Rightarrow> run_tests ts q s'
         | Raise e s' \<Rightarrow>
             (if e = KeyboardInterrupt
              then and_then (unmute s') (\<lambda>_ s''. Raise (SystemExit 1) s'')
              else and_then (unmute s') (\<lambda>_ s''. run_tests ts q s''))))"

text \<open>The outer loop over the sorted question ids.\<close>

fun run_questions :: "string list \<Rightarrow> test list \<Rightarrow> pystate \<Rightarrow> unit result" where
  "run_questions [] tests s = Return () s"
| "run_questions (q # qs) tests s =
     and_then (begin_q q s)
       (\<lambda>started s1.
          if \<not> started then run_questions qs tests s1
          else and_then (run_tests tests q s1)
                 (\<lambda>_ s2. and_then (end_q s2) (\<lambda>_ s3. run_questions qs tests s3)))"

text \<open>The tracker that \<^verbatim>\<open>main\<close> constructs: sorted question ids, \<^verbatim>\<open>maxes\<close>, \<^verbatim>\<open>PREREQS\<close>
  and muting switched off.\<close>

definition main_tracker :: "test list \<Rightarrow> (string \<rightharpoonup> string set) \<Rightarrow> tracker" where
  "main_tracker tests PREREQS =
     (case collect tests ({}, Map.empty, PREREQS) of
        (qset, mx, pre) \<Rightarrow> Tracker_init (sorted_list_of_set qset) mx pre False)"

text \<open>\<^verbatim>\<open>main\<close>. The registry and the list of question ids are values here: test functions
  are taken not to mutate either list in place while the driver iterates.\<close>

definition main :: "test list \<Rightarrow> (string \<rightharpoonup> string set) \<Rightarrow> pystate \<Rightarrow> unit result" where
  "main tests PREREQS s0 =
     (let s1 = disable_graphics s0;
          tracker = main_tracker tests PREREQS;
          s2 = s1\<lparr> trk := tracker \<rparr>
      in run_questions (questions tracker) tests s2)"

text \<open>What a caller sees of a call: whether it returned, and the state it left.\<close>

fun returned :: "'a result \<Rightarrow> bool" where
  "returned (Return a s) = True"
| "returned (Raise e s) = False"

fun state_of :: "'a result \<Rightarrow> pystate" where
  "state_of (Return a s) = s"
| "state_of (Raise e s) = s"

text \<open>Which exception a call raised, if any.\<close>

fun raised :: "'a result \<Rightarrow> exn option" where
  "raised (Return a s) = None"
| "raised (Raise e s) = Some e"

text \<open>The lines a call passed to \<^verbatim>\<open>print\<close>: what the log gained over the state the call
  started in.\<close>

definition emitted :: "pystate \<Rightarrow> 'a result \<Rightarrow> string list" where
  "emitted s r = map snd (drop (length (printed s)) (printed (state_of r)))"

text \<open>A process start: real output stream, nothing printed, no tracker state.\<close>

definition start_state :: pystate where
  "start_state =
     \<lparr> trk = Tracker_init [] Map.empty Map.empty False,
       sys_stdout = Some Console, printed = [], use_graphics = True \<rparr>"

subsection \<open>Tracker clients\<close>

text \<open>What a test does while a question is active, as a script: calls of \<^verbatim>\<open>begin_test\<close>,
  \<^verbatim>\<open>add_points\<close> and \<^verbatim>\<open>end_test\<close> on the tracker, and raising an exception of its own
  (a failed \<^verbatim>\<open>assert\<close>, an error in the code under test, an interrupt). A script stops
  at the first step that raises, as the body of a Python function does.\<close>

datatype call = Begin_test string | Add_points int | End_test int | Throw exn

fun do_call :: "call \<Rightarrow> pystate \<Rightarrow> unit result" where
  "do_call (Begin_test name) s = begin_test name s"
| "do_call (Add_points n) s = add_points n s"
| "do_call (End_test pts) s = end_test pts s"
| "do_call (Throw e) s = Raise e s"

fun run_calls :: "call list \<Rightarrow> pystate \<Rightarrow> unit result" where
  "run_calls [] s = Return () s"
| "run_calls (c # cs) s = and_then (do_call c s) (\<lambda>_. run_calls cs)"

text \<open>Total passed to \<^verbatim>\<open>add_points\<close>, and total weight passed to \<^verbatim>\<open>end_test\<close>.\<close>

fun awarded :: "call list \<Rightarrow> int" where
  "awarded [] = 0"
| "awarded (Add_points n # cs) = n + awarded cs"
| "awarded (c # cs) = awarded cs"

fun declared :: "call list \<Rightarrow> int" where
  "declared [] = 0"
| "declared (End_test pts # cs) = pts + declared cs"
| "declared (c # cs) = declared cs"

text \<open>Running a list of tests one after the other, none skipped, with the driver's
  handling of a raise: the reading of ``run every test whose question id matches,
  preserving registry order'' once the matching tests are selected.\<close>

fun run_each :: "test list \<Rightarrow> pystate \<Rightarrow> unit result" where
  "run_each [] s = Return () s"
| "run_each ((testq, pts, f) # ts) s =
     (case f s of
        Return _ s' \<Rightarrow> run_each ts s'
      | Raise e s' \<Rightarrow>
          (if e = KeyboardInterrupt
           then and_then (unmute s') (\<lambda>_ s''. Raise (SystemExit 1) s'')
           else and_then (unmute s') (\<lambda>_ s''. run_each ts s'')))"

text \<open>The declared points of the tests registered for a question, summed.\<close>

definition declared_total :: "test list \<Rightarrow> string \<Rightarrow> int" where
  "declared_total tests q = sum_list (map (\<lambda>t. fst (snd t)) (filter (\<lambda>t. fst t = q) tests))"

text \<open>A registry whose test functions are scripts.\<close>

definition scripted :: "(string \<times> int \<times> call list) list \<Rightarrow> test list" where
  "scripted reg = map (\<lambda>(q, pts, cs). (q, pts, run_calls cs)) reg"

text \<open>The steps of a script that are carried out from a state: all of them up to and
  including the first that raises.\<close>

fun executed :: "call list \<Rightarrow> pystate \<Rightarrow> call list" where
  "executed [] s = []"
| "executed (c # cs) s =
     (case do_call c s of
        Return _ s' \<Rightarrow> c # executed cs s'
      | Raise e s' \<Rightarrow> [c])"

text \<open>The steps carried out by the tests of question \<open>q\<close> as the driver's inner loop runs
  over the registry from a state: a test that raises is cut short there, the driver
  unmutes, and the next test of \<open>q\<close> goes on from the state so left; an interrupt ends
  the loop.\<close>

fun calls_made :: "(string \<times> int \<times> call list) list \<Rightarrow> string \<Rightarrow> pystate \<Rightarrow> call list" where
  "calls_made [] q s = []"
| "calls_made ((testq, pts, cs) # ts) q s =
     (if testq \<noteq> q then calls_made ts q s
      else
        (case run_calls cs s of
           Return _ s' \<Rightarrow> executed cs s @ calls_made ts q s'
         | Raise e s' \<Rightarrow>
             (if e = KeyboardInterrupt then executed cs s
              else executed cs s @ calls_made ts q (state_of (unmute s')))))"

text \<open>The state in which \<^verbatim>\<open>main\<close> enters its loop over the questions.\<close>

definition loop_start :: "test list \<Rightarrow> (string \<rightharpoonup> string set) \<Rightarrow> pystate \<Rightarrow> pystate" where
  "loop_start tests PREREQS s0 = (disable_graphics s0)\<lparr> trk := main_tracker tests PREREQS \<rparr>"

text \<open>The steps carried out while \<open>q\<close> is active in a run of \<^verbatim>\<open>main\<close> on a scripted
  registry, where \<open>earlier\<close> are the questions \<^verbatim>\<open>main\<close> processes before \<open>q\<close>.\<close>

definition calls_in_question ::
  "(string \<times> int \<times> call list) list \<Rightarrow> (string \<rightharpoonup> string set) \<Rightarrow> pystate \<Rightarrow>
     string list \<Rightarrow> string \<Rightarrow> call list" where
  "calls_in_question reg PREREQS s0 earlier q =
     calls_made reg q
       (state_of (begin_q q
          (state_of (run_questions earlier (scripted reg)
             (loop_start (scripted reg) PREREQS s0)))))"

subsection \<open>Graph tracer\<close>

text \<open>
  A node is its identity; \<open>parents\<close> gives each node's \<^verbatim>\<open>parents\<close> list (an attribute set
  by the \<^verbatim>\<open>nn\<close> library). \<^verbatim>\<open>visit\<close> is recursive, so the model carries a bound on the
  recursion depth: \<open>visit n\<close> allows \<open>n\<close> nested calls and is \<open>None\<close> when the traversal
  needs more. The state is the pair of the closure's \<^verbatim>\<open>nodes\<close> set and \<^verbatim>\<open>tape\<close> list.
\<close>

fun for_each :: "('a \<Rightarrow> 's \<Rightarrow> 's option) \<Rightarrow> 'a list \<Rightarrow> 's \<Rightarrow> 's option" where
  "for_each f [] st = Some st"
| "for_each f (x # xs) st =
     (case f x st of None \<Rightarrow> None | Some st' \<Rightarrow> for_each f xs st')"

fun visit ::
  "nat \<Rightarrow> ('a \<Rightarrow> 'a list) \<Rightarrow> 'a \<Rightarrow> 'a set \<times> 'a list \<Rightarrow> ('a set \<times> 'a list) option" where
  "visit 0 parents node st = None"
| "visit (Suc n) parents node (nodes, tape) =
     (if node \<notin> nodes then
        (case for_each (visit n parents) (parents node) (nodes, tape) of
           None \<Rightarrow> None
         | Some (nodes', tape') \<Rightarrow> Some (insert node nodes', tape' @ [node]))
      else Some (nodes, tape))"

definition trace_run :: "nat \<Rightarrow> ('a \<Rightarrow> 'a list) \<Rightarrow> 'a \<Rightarrow> ('a set \<times> 'a list) option" where
  "trace_run n parents node_to_trace = visit n parents node_to_trace ({}, [])"

definition trace_node :: "nat \<Rightarrow> ('a \<Rightarrow> 'a list) \<Rightarrow> 'a \<Rightarrow> 'a set option" where
  "trace_node n parents node_to_trace = map_option fst (trace_run n parents node_to_trace)"

text \<open>The parents relation as a set of edges, and the nodes reachable from a node along
  it, the node itself included.\<close>

definition parent_rel :: "('a \<Rightarrow> 'a list) \<Rightarrow> ('a \<times> 'a) set" where
  "parent_rel parents = {(x, p). p \<in> set (parents x)}"

definition reachable :: "('a \<Rightarrow> 'a list) \<Rightarrow> 'a \<Rightarrow> 'a set" where
  "reachable parents root = (parent_rel parents)\<^sup>* `` {root}"

text \<open>The diamond: \<open>A\<close> feeds \<open>B\<close> and \<open>C\<close>, which both feed \<open>D\<close>.\<close>

datatype diamond_node = A | B | C | D

fun diamond :: "diamond_node \<Rightarrow> diamond_node list" where
  "diamond A = []"
| "diamond B = [A]"
| "diamond C = [A]"
| "diamond D = [B, C]"

subsection \<open>Example states and registries\<close>

text \<open>A tracker between \<^verbatim>\<open>begin_q\<close> calls, with one question \<open>q1\<close> worth two points.\<close>

definition idle :: pystate where
  "idle = start_state\<lparr> trk := Tracker_init [''q1''] [''q1'' \<mapsto> 2] Map.empty False \<rparr>"

text \<open>The same tracker inside test \<open>t\<close> of \<open>q1\<close>, begun with no points awarded, now with
  \<open>p\<close> points awarded.\<close>

definition in_test :: "int \<Rightarrow> pystate" where
  "in_test p =
     start_state\<lparr> trk := (Tracker_init [''q1''] [''q1'' \<mapsto> 2] Map.empty False)
        \<lparr> points := [''q1'' \<mapsto> p], current_question := Some ''q1'',
          current_test := Some ''t'', points_at_test_start := Some 0,
          possible_points_remaining := Some 2 \<rparr> \<rparr>"

text \<open>The same tracker after the tests of \<open>q1\<close> have ended: two points awarded, none
  remaining.\<close>

definition finished :: pystate where
  "finished =
     start_state\<lparr> trk := (Tracker_init [''q1''] [''q1'' \<mapsto> 2] Map.empty False)
        \<lparr> points := [''q1'' \<mapsto> 2], current_question := Some ''q1'',
          possible_points_remaining := Some 0 \<rparr> \<rparr>"

text \<open>Two tests, registered for \<open>q2\<close> first and \<open>q1\<close> second; each awards its full
  weight between \<^verbatim>\<open>begin_test\<close> and \<^verbatim>\<open>end_test\<close>.\<close>

definition registry2 :: "test list" where
  "registry2 =
     [(''q2'', 1, run_calls [Begin_test ''b'', Add_points 1, End_test 1]),
      (''q1'', 2, run_calls [Begin_test ''a'', Add_points 2, End_test 2])]"

text \<open>Three tests of \<open>q1\<close>: the first mutes output and raises an ordinary exception, the
  second prints and is interrupted, the third would print.\<close>

definition registry_err :: "test list" where
  "registry_err =
     [(''q1'', 0, \<lambda>s. and_then (mute s) (\<lambda>_. Raise (OtherException ''boom''))),
      (''q1'', 0, \<lambda>s. Raise KeyboardInterrupt (py_print ''second'' s)),
      (''q1'', 0, \<lambda>s. Return () (py_print ''third'' s))]"

text \<open>A test of weight two that awards five points.\<close>

definition greedy :: "test list" where
  "greedy = [(''q1'', 2, run_calls [Begin_test ''t'', Add_points 5, End_test 2])]"

text \<open>Two scripted tests of \<open>q1\<close>. The first awards a point and calls \<^verbatim>\<open>end_test\<close> with no
  test begun; the second awards a point and fails an assertion of its own.\<close>

definition swallowed :: "(string \<times> int \<times> call list) list" where
  "swallowed =
     [(''q1'', 2, [Add_points 1, End_test 2]),
      (''q1'', 0, [Add_points 1, Throw AssertionError])]"

text \<open>A set of nodes that holds the parents of each of its members: what \<^verbatim>\<open>nodes\<close> is
  between two calls of \<^verbatim>\<open>visit\<close>.\<close>

definition closed :: "('a \<Rightarrow> 'a list) \<Rightarrow> 'a set \<Rightarrow> bool" where
  "closed parents V = (\<forall>x \<in> V. set (parents x) \<subseteq> V)"

text \<open>Depth of a node of the diamond: every parent lies strictly lower.\<close>

fun diamond_rank :: "diamond_node \<Rightarrow> nat" where
  "diamond_rank A = 0"
| "diamond_rank B = 1"
| "diamond_rank C = 1"
| "diamond_rank D = 2"

section \<open>Properties\<close>

lemmas tracker_ops =
  begin_q_def end_q_def begin_test_def end_test_def end_test_body_def add_points_def
  mute_def unmute_def current_points_def py_print_def pass_line_def fail_line_def fmt_def
  Let_def

subsection \<open>Pass and fail lines of \<^verbatim>\<open>end_test\<close>\<close>

lemma pass_not_fail: "pass_line x \<noteq> fail_line"
  by (simp add: pass_line_def fail_line_def)

text \<open>With a question active whose points are recorded, a baseline and a remaining total,
  \<^verbatim>\<open>end_test\<close> returns and prints exactly one line or none.\<close>

lemma end_test_emitted:
  assumes "current_question (trk s) = Some q" "points (trk s) q = Some p"
    "points_at_test_start (trk s) = Some b" "possible_points_remaining (trk s) = Some r"
  shows "returned (end_test pts s) \<and>
         emitted s (end_test pts s) =
           (if p = b + pts then [pass_line (current_test (trk s))]
            else if p = b then [fail_line] else [])"
  using assms
  by (simp add: end_test_def end_test_body_def unmute_def current_points_def emitted_def
      py_print_def Let_def)

text \<open>
  C3, as amended. For a tracker with an active question and an active test, \<^verbatim>\<open>end_test(pts)\<close>
  prints the PASS line iff the awarded total equals baseline plus \<open>pts\<close>; it prints the
  FAIL line iff the awarded total equals the baseline and \<open>pts\<close> is not zero; and it
  prints nothing when the awarded total lies strictly between the two.
\<close>

theorem end_test_verdict:
  assumes "current_question (trk s) = Some q" "points (trk s) q = Some p"
    "current_test (trk s) = Some name"
    "points_at_test_start (trk s) = Some b" "possible_points_remaining (trk s) = Some r"
  shows "returned (end_test pts s) \<and>
         (pass_line (Some name) \<in> set (emitted s (end_test pts s)) \<longleftrightarrow> p = b + pts) \<and>
         (fail_line \<in> set (emitted s (end_test pts s)) \<longleftrightarrow> p = b \<and> pts \<noteq> 0) \<and>
         (b < p \<and> p < b + pts \<longrightarrow> emitted s (end_test pts s) = [])"
  using end_test_emitted [OF assms(1,2,4,5), of pts] assms(3) pass_not_fail [of "Some name"]
  by auto

text \<open>Partial credit: one point awarded of two, no line.\<close>

theorem end_test_verdict_witness:
  "returned (end_test 2 (in_test 1)) \<and>
   pass_line (Some ''t'') \<notin> set (emitted (in_test 1) (end_test 2 (in_test 1))) \<and>
   fail_line \<notin> set (emitted (in_test 1) (end_test 2 (in_test 1))) \<and>
   emitted (in_test 1) (end_test 2 (in_test 1)) = []"
  using end_test_verdict [of "in_test 1" "''q1''" 1 "''t''" 0 2 2]
  by (simp add: in_test_def start_state_def Tracker_init_def)

text \<open>C3 as stated fails for a test of weight zero: the awarded total equals the baseline,
  and no FAIL line is printed.\<close>

theorem end_test_fail_iff_baseline_counterexample:
  "\<not> (fail_line \<in> set (emitted (in_test 0) (end_test 0 (in_test 0))) \<longleftrightarrow>
        current_points (trk (in_test 0)) = points_at_test_start (trk (in_test 0)))"
  by (simp add: in_test_def start_state_def Tracker_init_def end_test_def end_test_body_def
      current_points_def emitted_def py_print_def pass_line_def fail_line_def fmt_def)

text \<open>
  C10. When \<^verbatim>\<open>end_test(0)\<close> is called with the awarded total equal to the baseline, the
  tracker prints the PASS line and no FAIL line.
\<close>

theorem end_test_zero_pass:
  assumes "current_question (trk s) = Some q" "points (trk s) q = Some b"
    "current_test (trk s) = Some name"
    "points_at_test_start (trk s) = Some b" "possible_points_remaining (trk s) = Some r"
  shows "emitted s (end_test 0 s) = [pass_line (Some name)] \<and>
         fail_line \<notin> set (emitted s (end_test 0 s))"
  using end_test_emitted [OF assms(1,2,4,5), of 0] assms(3) pass_not_fail [of "Some name"]
  by auto

theorem end_test_zero_pass_witness:
  "emitted (in_test 0) (end_test 0 (in_test 0)) = [''*** PASS: t''] \<and>
   fail_line \<notin> set (emitted (in_test 0) (end_test 0 (in_test 0)))"
proof -
  have "current_question (trk (in_test 0)) = Some ''q1''"
    and "points (trk (in_test 0)) ''q1'' = Some 0"
    and "current_test (trk (in_test 0)) = Some ''t''"
    and "points_at_test_start (trk (in_test 0)) = Some 0"
    and "possible_points_remaining (trk (in_test 0)) = Some 2"
    by (simp_all add: in_test_def)
  from end_test_zero_pass [OF this] show ?thesis
    by (simp add: pass_line_def fmt_def fail_line_def)
qed

subsection \<open>Muting\<close>

text \<open>
  C4, as amended. In every state a second \<^verbatim>\<open>mute()\<close> changes nothing, a second
  \<^verbatim>\<open>unmute()\<close> changes nothing, and both calls return. From a state that is not muted,
  \<^verbatim>\<open>mute()\<close> then \<^verbatim>\<open>unmute()\<close> leaves \<^verbatim>\<open>sys.stdout\<close> as it was before; from a muted state
  the pair leaves \<^verbatim>\<open>sys.stdout\<close> at the saved original sink.
\<close>

theorem mute_unmute_idempotent:
  "and_then (mute s) (\<lambda>_. mute) = mute s \<and>
   and_then (unmute s) (\<lambda>_. unmute) = unmute s \<and>
   returned (mute s) \<and> returned (unmute s) \<and>
   (\<not> muted (trk s) \<longrightarrow>
      sys_stdout (state_of (and_then (mute s) (\<lambda>_. unmute))) = sys_stdout s) \<and>
   (muted (trk s) \<longrightarrow>
      sys_stdout (state_of (and_then (mute s) (\<lambda>_. unmute))) = original_stdout (trk s))"
  by (simp add: mute_def unmute_def)

theorem mute_unmute_idempotent_witness:
  "and_then (mute start_state) (\<lambda>_. mute) = mute start_state \<and>
   and_then (unmute start_state) (\<lambda>_. unmute) = unmute start_state \<and>
   returned (mute start_state) \<and> returned (unmute start_state) \<and>
   sys_stdout (state_of (and_then (mute start_state) (\<lambda>_. unmute))) = Some Console"
  using mute_unmute_idempotent [of start_state]
  by (simp add: start_state_def Tracker_init_def)

text \<open>C4 as stated fails in a muted state: there \<^verbatim>\<open>sys.stdout\<close> is the null sink before
  \<^verbatim>\<open>mute()\<close>, and the real stream after \<^verbatim>\<open>mute()\<close> then \<^verbatim>\<open>unmute()\<close>.\<close>

theorem mute_unmute_restores_counterexample:
  "sys_stdout (state_of (and_then (mute (state_of (mute start_state))) (\<lambda>_. unmute)))
     \<noteq> sys_stdout (state_of (mute start_state))"
  by (simp add: mute_def unmute_def start_state_def Tracker_init_def)

subsection \<open>Beginning and ending a question\<close>

text \<open>
  C5. \<^verbatim>\<open>begin_q(q)\<close> fails its assertion iff \<open>q\<close> is not among the tracker's questions, and
  then the state is untouched. For a known \<open>q\<close>, with \<open>m\<close> its entry in \<^verbatim>\<open>maxes\<close>, the call
  returns \<^verbatim>\<open>True\<close> with the current question set to \<open>q\<close> and the remaining points to \<open>m\<close>.
\<close>

theorem begin_q_known_iff:
  "((\<exists>s'. begin_q q s = Raise AssertionError s') \<longleftrightarrow> q \<notin> set (questions (trk s))) \<and>
   (q \<notin> set (questions (trk s)) \<longrightarrow> begin_q q s = Raise AssertionError s) \<and>
   (q \<in> set (questions (trk s)) \<longrightarrow> maxes (trk s) q = Some m \<longrightarrow>
      begin_q q s =
        Return True (s\<lparr> trk := (trk s)\<lparr> current_question := Some q,
                                         possible_points_remaining := Some m \<rparr> \<rparr>))"
  by (auto simp: begin_q_def Let_def split: option.splits)

theorem begin_q_known_iff_witness:
  "begin_q ''q9'' idle = Raise AssertionError idle \<and>
   begin_q ''q1'' idle =
     Return True (idle\<lparr> trk := (trk idle)\<lparr> current_question := Some ''q1'',
                                            possible_points_remaining := Some 2 \<rparr> \<rparr>)"
  using begin_q_known_iff [of "''q9''" idle] begin_q_known_iff [of "''q1''" idle 2]
  by (simp add: idle_def start_state_def Tracker_init_def)

text \<open>
  C6. \<^verbatim>\<open>end_q()\<close> fails an assertion iff no question is active or the remaining points are
  not exactly zero. Otherwise it returns with the current question and the remaining
  points unset and the awarded points as they were.
\<close>

theorem end_q_assertions:
  "((\<exists>s'. end_q s = Raise AssertionError s') \<longleftrightarrow>
      (current_question (trk s) = None \<or> possible_points_remaining (trk s) \<noteq> Some 0)) \<and>
   (current_question (trk s) \<noteq> None \<and> possible_points_remaining (trk s) = Some 0 \<longrightarrow>
      end_q s = Return () (s\<lparr> trk := (trk s)\<lparr> current_question := None,
                                               possible_points_remaining := None \<rparr> \<rparr>) \<and>
      current_question (trk (state_of (end_q s))) = None \<and>
      possible_points_remaining (trk (state_of (end_q s))) = None \<and>
      points (trk (state_of (end_q s))) = points (trk s))"
  by (auto simp: end_q_def)

theorem end_q_assertions_witness:
  "end_q finished =
     Return () (finished\<lparr> trk := (trk finished)\<lparr> current_question := None,
                                                possible_points_remaining := None \<rparr> \<rparr>) \<and>
   points (trk (state_of (end_q finished))) ''q1'' = Some 2 \<and>
   (\<exists>s'. end_q idle = Raise AssertionError s') \<and>
   (\<exists>s'. end_q (in_test 1) = Raise AssertionError s')"
proof -
  have "current_question (trk finished) \<noteq> None \<and>
        possible_points_remaining (trk finished) = Some 0"
    by (simp add: finished_def)
  with end_q_assertions [of finished]
  have "end_q finished =
          Return () (finished\<lparr> trk := (trk finished)\<lparr> current_question := None,
                                                     possible_points_remaining := None \<rparr> \<rparr>)"
    and "points (trk (state_of (end_q finished))) = points (trk finished)"
    by simp_all
  moreover have "points (trk finished) ''q1'' = Some 2"
    by (simp add: finished_def)
  moreover have "\<exists>s'. end_q idle = Raise AssertionError s'"
    using end_q_assertions [of idle] by (simp add: idle_def start_state_def Tracker_init_def)
  moreover have "\<exists>s'. end_q (in_test 1) = Raise AssertionError s'"
    using end_q_assertions [of "in_test 1"] by (simp add: in_test_def)
  ultimately show ?thesis by simp
qed

subsection \<open>The driver\<close>

lemma collect_questions:
  "fst (collect ts (qs, mx, pre)) = qs \<union> fst ` set ts"
  by (induction ts arbitrary: qs mx pre) force+

lemma declared_total_absent:
  "q \<notin> fst ` set ts \<Longrightarrow> declared_total ts q = 0"
  by (induction ts) (auto simp: declared_total_def)

lemma declared_total_Cons:
  "declared_total ((q', pts, f) # ts) q =
     (if q' = q then pts + declared_total ts q else declared_total ts q)"
  by (simp add: declared_total_def)

lemma collect_maxes:
  "fst (snd (collect ts (qs, mx, pre))) q =
     (if q \<in> fst ` set ts
      then Some ((case mx q of None \<Rightarrow> 0 | Some m \<Rightarrow> m) + declared_total ts q)
      else mx q)"
proof (induction ts arbitrary: qs mx pre)
  case Nil
  show ?case by simp
next
  case (Cons t ts)
  obtain q' pts f where t: "t = (q', pts, f)" by (cases t)
  show ?case
    unfolding t collect.simps Cons.IH
    by (auto simp: declared_total_Cons declared_total_absent split: option.splits)
qed

lemma main_tracker_questions:
  "questions (main_tracker tests P) = sorted_list_of_set (fst ` set tests)"
proof -
  obtain qset mx pre where c: "collect tests ({}, Map.empty, P) = (qset, mx, pre)"
    by (cases "collect tests ({}, Map.empty, P)")
  from collect_questions [of tests "{}" Map.empty P] c have "qset = fst ` set tests" by simp
  with c show ?thesis by (simp add: main_tracker_def Tracker_init_def)
qed

lemma main_tracker_maxes:
  "maxes (main_tracker tests P) q =
     (if q \<in> fst ` set tests then Some (declared_total tests q) else None)"
proof -
  obtain qset mx pre where c: "collect tests ({}, Map.empty, P) = (qset, mx, pre)"
    by (cases "collect tests ({}, Map.empty, P)")
  from collect_maxes [of tests "{}" Map.empty P q] c
  have "mx q = (if q \<in> fst ` set tests then Some (declared_total tests q) else None)"
    by simp
  with c show ?thesis by (simp add: main_tracker_def Tracker_init_def)
qed

text \<open>The inner loop skips the tests of other questions and keeps the order of the rest.\<close>

lemma run_tests_filter:
  "run_tests ts q s = run_each (filter (\<lambda>t. fst t = q) ts) s"
proof (induction ts arbitrary: s)
  case Nil
  show ?case by simp
next
  case (Cons t ts)
  obtain q' pts f where t: "t = (q', pts, f)" by (cases t)
  show ?case
    by (cases "f s") (simp_all add: t Cons.IH unmute_def)
qed

text \<open>
  C7. \<^verbatim>\<open>main\<close> runs its outer loop over the registered question ids in sorted order,
  each once: the list is sorted, has no duplicates and holds exactly the ids of the
  registry. \<^verbatim>\<open>maxes[q]\<close> is the sum of the declared points of the tests registered for
  \<open>q\<close>. For a question the inner loop runs the tests registered for it, in registration
  order.
\<close>

theorem driver_order:
  "main tests P s0 =
     run_questions (sorted_list_of_set (fst ` set tests)) tests
       ((disable_graphics s0)\<lparr> trk := main_tracker tests P \<rparr>) \<and>
   questions (main_tracker tests P) = sorted_list_of_set (fst ` set tests) \<and>
   sorted (questions (main_tracker tests P)) \<and>
   distinct (questions (main_tracker tests P)) \<and>
   set (questions (main_tracker tests P)) = fst ` set tests \<and>
   maxes (main_tracker tests P) q =
     (if q \<in> fst ` set tests then Some (declared_total tests q) else None) \<and>
   run_tests tests q s = run_each (filter (\<lambda>t. fst t = q) tests) s"
  by (simp add: main_def Let_def main_tracker_questions main_tracker_maxes run_tests_filter)

text \<open>Registered for \<open>q2\<close> and then \<open>q1\<close>: the header and PASS line of \<open>q1\<close>'s test come
  first on the console.\<close>

theorem driver_order_witness:
  "questions (main_tracker registry2 Map.empty) = [''q1'', ''q2''] \<and>
   maxes (main_tracker registry2 Map.empty) ''q1'' = Some 2 \<and>
   returned (main registry2 Map.empty start_state) \<and>
   console (state_of (main registry2 Map.empty start_state)) =
     [''*** q1) a'', ''*** PASS: a'', ''*** q2) b'', ''*** PASS: b'']"
proof -
  have ids: "sorted_list_of_set (fst ` set registry2) = [''q1'', ''q2'']"
    by (simp add: registry2_def)
  have mx: "declared_total registry2 ''q1'' = 2"
    by (simp add: registry2_def declared_total_def)
  note d = driver_order [of registry2 Map.empty start_state "''q1''"]
  have q: "questions (main_tracker registry2 Map.empty) = [''q1'', ''q2'']"
    using d ids by simp
  have m: "maxes (main_tracker registry2 Map.empty) ''q1'' = Some 2"
    using d mx by (simp add: registry2_def)
  have t: "main_tracker registry2 Map.empty =
      Tracker_init [''q1'', ''q2''] [''q2'' \<mapsto> 1, ''q1'' \<mapsto> 2]
        [''q2'' \<mapsto> {}, ''q1'' \<mapsto> {}] False"
    by (simp add: main_tracker_def registry2_def)
  have run: "main registry2 Map.empty start_state =
      run_questions [''q1'', ''q2''] registry2
        ((disable_graphics start_state)\<lparr> trk := main_tracker registry2 Map.empty \<rparr>)"
    using d ids by simp
  have "returned (main registry2 Map.empty start_state) \<and>
        console (state_of (main registry2 Map.empty start_state)) =
          [''*** q1) a'', ''*** PASS: a'', ''*** q2) b'', ''*** PASS: b'']"
    unfolding run t
    by (simp add: registry2_def tracker_ops Tracker_init_def disable_graphics_def
        start_state_def console_def)
  with q m show ?thesis by simp
qed

lemma run_tests_append:
  "run_tests (pre @ ts) q s = and_then (run_tests pre q s) (\<lambda>_. run_tests ts q)"
proof (induction pre arbitrary: s)
  case Nil
  show ?case by simp
next
  case (Cons t pre)
  obtain q' pts f where t: "t = (q', pts, f)" by (cases t)
  show ?case
    by (cases "f s") (simp_all add: t Cons.IH unmute_def)
qed

lemma run_questions_append:
  "run_questions (qs0 @ qs) tests s =
     and_then (run_questions qs0 tests s) (\<lambda>_. run_questions qs tests)"
proof (induction qs0 arbitrary: s)
  case Nil
  show ?case by simp
next
  case (Cons q qs0)
  show ?case
  proof (cases "begin_q q s")
    case (Raise e s')
    then show ?thesis by simp
  next
    case (Return started s1)
    show ?thesis
    proof (cases started)
      case False
      with Return show ?thesis by (simp add: Cons.IH)
    next
      case True
      show ?thesis
      proof (cases "run_tests tests q s1")
        case (Raise e s')
        with Return True show ?thesis by simp
      next
        case r2: (Return u s2)
        show ?thesis
          by (cases "end_q s2") (simp_all add: Return True r2 Cons.IH)
      qed
    qed
  qed
qed

text \<open>
  C8. Take any point of a run of \<^verbatim>\<open>main\<close>: the questions before \<open>q\<close> have completed,
  \<^verbatim>\<open>begin_q(q)\<close> has returned, the tests of \<open>q\<close> registered before \<open>f\<close> have run, and \<open>f\<close>
  raises \<open>e\<close>. The driver then unmutes and changes no points. If \<open>e\<close> is not an interrupt,
  \<^verbatim>\<open>main\<close> carries on with the tests registered after \<open>f\<close>, then \<^verbatim>\<open>end_q\<close> and the later
  questions. If \<open>e\<close> is an interrupt, \<^verbatim>\<open>main\<close> ends at once with \<^verbatim>\<open>SystemExit(1)\<close>.
\<close>

theorem test_failure_handling:
  assumes "questions (main_tracker tests P) = earlier @ q # later"
    and "run_questions earlier tests ((disable_graphics s_init)\<lparr> trk := main_tracker tests P \<rparr>)
           = Return () s0"
    and "begin_q q s0 = Return True s1"
    and "tests = pre @ (q, pts, f) # rest"
    and "run_tests pre q s1 = Return () s"
    and "f s = Raise e s'"
  shows "returned (unmute s') \<and>
         \<not> muted (trk (state_of (unmute s'))) \<and>
         points (trk (state_of (unmute s'))) = points (trk s') \<and>
         (e \<noteq> KeyboardInterrupt \<longrightarrow>
            run_tests tests q s1 = run_tests rest q (state_of (unmute s')) \<and>
            main tests P s_init =
              and_then (run_tests rest q (state_of (unmute s')))
                (\<lambda>_ s2. and_then (end_q s2) (\<lambda>_. run_questions later tests))) \<and>
         (e = KeyboardInterrupt \<longrightarrow>
            main tests P s_init = Raise (SystemExit 1) (state_of (unmute s')))"
proof -
  have a: "returned (unmute s') \<and> \<not> muted (trk (state_of (unmute s'))) \<and>
      points (trk (state_of (unmute s'))) = points (trk s')"
    by (simp add: unmute_def)
  have m: "main tests P s_init =
      and_then (run_tests tests q s1)
        (\<lambda>_ s2. and_then (end_q s2) (\<lambda>_. run_questions later tests))"
    using assms(1,2,3) by (simp add: main_def Let_def run_questions_append)
  have t: "run_tests tests q s1 = run_tests ((q, pts, f) # rest) q s"
    using assms(4,5) by (simp add: run_tests_append)
  have b: "run_tests tests q s1 = run_tests rest q (state_of (unmute s'))"
    if "e \<noteq> KeyboardInterrupt"
    using that assms(6) by (simp add: t unmute_def)
  have c: "run_tests tests q s1 = Raise (SystemExit 1) (state_of (unmute s'))"
    if "e = KeyboardInterrupt"
    using that assms(6) by (simp add: t unmute_def)
  show ?thesis
  proof (cases "e = KeyboardInterrupt")
    case True
    with a c m show ?thesis by simp
  next
    case False
    with a b m show ?thesis by simp
  qed
qed

text \<open>The first test's exception is swallowed and output unmuted, so the second test's
  line reaches the console; its interrupt ends the run before the third test.\<close>

theorem test_failure_handling_witness:
  "raised (main registry_err Map.empty start_state) = Some (SystemExit 1) \<and>
   console (state_of (main registry_err Map.empty start_state)) = [''second''] \<and>
   sys_stdout (state_of (main registry_err Map.empty start_state)) = Some Console"
proof -
  let ?t0 = "main_tracker registry_err Map.empty"
  let ?s0 = "(disable_graphics start_state)\<lparr> trk := ?t0 \<rparr>"
  let ?f1 = "\<lambda>s. and_then (mute s) (\<lambda>_. Raise (OtherException ''boom''))"
  let ?f2 = "\<lambda>s. Raise KeyboardInterrupt (py_print ''second'' s)"
  let ?f3 = "\<lambda>s. Return () (py_print ''third'' s)"
  have t0: "?t0 = Tracker_init [''q1''] [''q1'' \<mapsto> 0] [''q1'' \<mapsto> {}] False"
    by (simp add: main_tracker_def registry_err_def)
  have qs: "questions ?t0 = [] @ ''q1'' # []"
    by (simp add: t0 Tracker_init_def)
  have e: "run_questions [] registry_err ?s0 = Return () ?s0"
    by simp
  obtain s1 where s1: "s1 = ?s0\<lparr> trk := (trk ?s0)\<lparr> current_question := Some ''q1'',
        possible_points_remaining := Some 0 \<rparr> \<rparr>" by simp
  have b: "begin_q ''q1'' ?s0 = Return True s1"
    by (simp add: s1 t0 begin_q_def Tracker_init_def)
  have r1: "registry_err = [] @ (''q1'', 0, ?f1) # [(''q1'', 0, ?f2), (''q1'', 0, ?f3)]"
    by (simp add: registry_err_def)
  obtain s1' where s1': "s1' = state_of (mute s1)" by simp
  have f1: "?f1 s1 = Raise (OtherException ''boom'') s1'"
    by (simp add: s1' mute_def)
  have p0: "run_tests [] ''q1'' s1 = Return () s1"
    by simp
  note h1 = test_failure_handling [OF qs e b r1 p0 f1]
  have r2: "registry_err = [(''q1'', 0, ?f1)] @ (''q1'', 0, ?f2) # [(''q1'', 0, ?f3)]"
    by (simp add: registry_err_def)
  obtain s2 where s2: "s2 = state_of (unmute s1')" by simp
  have p: "run_tests [(''q1'', 0, ?f1)] ''q1'' s1 = Return () s2"
    by (simp add: s2 s1' mute_def unmute_def)
  have f2: "?f2 s2 = Raise KeyboardInterrupt (py_print ''second'' s2)"
    by simp
  note h2 = test_failure_handling [OF qs e b r2 p f2]
  have next_test: "run_tests registry_err ''q1'' s1 =
      run_tests [(''q1'', 0, ?f2), (''q1'', 0, ?f3)] ''q1'' s2"
    using h1 by (simp add: s2)
  have "main registry_err Map.empty start_state =
      Raise (SystemExit 1) (state_of (unmute (py_print ''second'' s2)))"
    using h2 by simp
  then show ?thesis
    by (simp add: s2 s1' s1 t0 mute_def unmute_def py_print_def console_def
        disable_graphics_def start_state_def Tracker_init_def)
qed

subsection \<open>Awarded points and the maximum\<close>

lemmas call_ops =
  begin_test_def end_test_def end_test_body_def add_points_def mute_def
  unmute_def current_points_def py_print_def Let_def

text \<open>With a question active, a step changes the awarded points by what it passes to
  add_points and the remaining total by what it passes to end_test, whether it returns
  or raises.\<close>

lemma do_call_effect:
  assumes "current_question (trk s) = Some q"
    and "points (trk s) q = Some p"
    and "possible_points_remaining (trk s) = Some r"
  shows "current_question (trk (state_of (do_call c s))) = Some q \<and>
         points (trk (state_of (do_call c s))) q = Some (p + awarded [c]) \<and>
         possible_points_remaining (trk (state_of (do_call c s))) = Some (r - declared [c]) \<and>
         maxes (trk (state_of (do_call c s))) = maxes (trk s)"
  using assms
  by (cases c) (auto simp: call_ops split: option.splits)

lemma awarded_append: "awarded (xs @ ys) = awarded xs + awarded ys"
  by (induction xs rule: awarded.induct) simp_all

lemma declared_append: "declared (xs @ ys) = declared xs + declared ys"
  by (induction xs rule: declared.induct) simp_all

lemma run_calls_effect:
  assumes "current_question (trk s) = Some q"
    and "points (trk s) q = Some p"
    and "possible_points_remaining (trk s) = Some r"
  shows "current_question (trk (state_of (run_calls cs s))) = Some q \<and>
         points (trk (state_of (run_calls cs s))) q = Some (p + awarded (executed cs s)) \<and>
         possible_points_remaining (trk (state_of (run_calls cs s))) =
           Some (r - declared (executed cs s)) \<and>
         maxes (trk (state_of (run_calls cs s))) = maxes (trk s)"
  using assms
proof (induction cs arbitrary: s p r)
  case Nil
  then show ?case by simp
next
  case (Cons c cs)
  note e = do_call_effect [OF Cons.prems, of c]
  show ?case
  proof (cases "do_call c s")
    case (Raise x s')
    with e show ?thesis by simp
  next
    case (Return u s')
    with e have 1: "current_question (trk s') = Some q"
      and 2: "points (trk s') q = Some (p + awarded [c])"
      and 3: "possible_points_remaining (trk s') = Some (r - declared [c])"
      and 4: "maxes (trk s') = maxes (trk s)"
      by simp_all
    from Cons.IH [OF 1 2 3] 4 Return show ?thesis
      using awarded_append [of "[c]" "executed cs s'"]
        declared_append [of "[c]" "executed cs s'"]
      by simp
  qed
qed


lemma unmute_keeps:
  "current_question (trk (state_of (unmute s))) = current_question (trk s) \<and>
   points (trk (state_of (unmute s))) = points (trk s) \<and>
   possible_points_remaining (trk (state_of (unmute s))) = possible_points_remaining (trk s) \<and>
   maxes (trk (state_of (unmute s))) = maxes (trk s)"
  by (simp add: unmute_def)

lemma unmute_returns: "\<exists>u. unmute s = Return () u"
  by (simp add: unmute_def)

text \<open>The same over the inner loop of the driver, for a registry of scripts.\<close>

lemma scripted_Cons:
  "scripted ((tq, pts, cs) # reg) = (tq, pts, run_calls cs) # scripted reg"
  by (simp add: scripted_def)

lemma run_tests_effect:
  assumes "current_question (trk s) = Some q"
    and "points (trk s) q = Some p"
    and "possible_points_remaining (trk s) = Some r"
  shows "current_question (trk (state_of (run_tests (scripted reg) q s))) = Some q \<and>
         points (trk (state_of (run_tests (scripted reg) q s))) q =
           Some (p + awarded (calls_made reg q s)) \<and>
         possible_points_remaining (trk (state_of (run_tests (scripted reg) q s))) =
           Some (r - declared (calls_made reg q s)) \<and>
         maxes (trk (state_of (run_tests (scripted reg) q s))) = maxes (trk s)"
  using assms
proof (induction reg arbitrary: s p r)
  case Nil
  then show ?case by (simp add: scripted_def)
next
  case (Cons t reg)
  obtain tq pts cs where t: "t = (tq, pts, cs)" by (cases t)
  show ?case
  proof (cases "tq = q")
    case False
    with Cons.IH [OF Cons.prems] show ?thesis by (simp add: t scripted_Cons)
  next
    case True
    note e = run_calls_effect [OF Cons.prems, of cs]
    show ?thesis
    proof (cases "run_calls cs s")
      case (Return u s')
      with e have 1: "current_question (trk s') = Some q"
        and 2: "points (trk s') q = Some (p + awarded (executed cs s))"
        and 3: "possible_points_remaining (trk s') = Some (r - declared (executed cs s))"
        and 4: "maxes (trk s') = maxes (trk s)"
        by simp_all
      from Cons.IH [OF 1 2 3] 4 Return True show ?thesis
        by (simp add: t scripted_Cons awarded_append declared_append)
    next
      case (Raise x s')
      obtain u where u: "unmute s' = Return () u"
        using unmute_returns by blast
      from unmute_keeps [of s'] e Raise
      have 1: "current_question (trk u) = Some q"
        and 2: "points (trk u) q = Some (p + awarded (executed cs s))"
        and 3: "possible_points_remaining (trk u) = Some (r - declared (executed cs s))"
        and 4: "maxes (trk u) = maxes (trk s)"
        by (simp_all add: u)
      show ?thesis
      proof (cases "x = KeyboardInterrupt")
        case ki: True
        with 1 2 3 4 Raise True u show ?thesis
          by (simp add: t scripted_Cons)
      next
        case other: False
        from Cons.IH [OF 1 2 3] 4 Raise True other u show ?thesis
          by (simp add: t scripted_Cons awarded_append declared_append)
      qed
    qed
  qed
qed

text \<open>Steps leave the points of every question but the current one alone.\<close>

lemma do_call_other:
  assumes "current_question (trk s) \<noteq> Some k"
  shows "points (trk (state_of (do_call c s))) k = points (trk s) k \<and>
         current_question (trk (state_of (do_call c s))) = current_question (trk s)"
  using assms
  by (cases c) (auto simp: call_ops split: option.splits)

lemma run_calls_other:
  assumes "current_question (trk s) \<noteq> Some k"
  shows "points (trk (state_of (run_calls cs s))) k = points (trk s) k \<and>
         current_question (trk (state_of (run_calls cs s))) = current_question (trk s)"
  using assms
proof (induction cs arbitrary: s)
  case Nil
  then show ?case by simp
next
  case (Cons c cs)
  note e = do_call_other [OF Cons.prems, of c]
  show ?case
  proof (cases "do_call c s")
    case (Raise x s')
    with e show ?thesis by simp
  next
    case (Return u s')
    with e Cons.prems have "current_question (trk s') \<noteq> Some k" by simp
    from Cons.IH [OF this] e Return show ?thesis by simp
  qed
qed

lemma run_tests_other:
  assumes "current_question (trk s) \<noteq> Some k"
  shows "points (trk (state_of (run_tests (scripted reg) q s))) k = points (trk s) k \<and>
         current_question (trk (state_of (run_tests (scripted reg) q s))) =
           current_question (trk s)"
  using assms
proof (induction reg arbitrary: s)
  case Nil
  then show ?case by (simp add: scripted_def)
next
  case (Cons t reg)
  obtain tq pts cs where t: "t = (tq, pts, cs)" by (cases t)
  show ?case
  proof (cases "tq = q")
    case False
    with Cons.IH [OF Cons.prems] show ?thesis by (simp add: t scripted_Cons)
  next
    case True
    note e = run_calls_other [OF Cons.prems, of cs]
    show ?thesis
    proof (cases "run_calls cs s")
      case (Return u s')
      with e Cons.prems have "current_question (trk s') \<noteq> Some k" by simp
      from Cons.IH [OF this] e Return True show ?thesis by (simp add: t scripted_Cons)
    next
      case (Raise x s')
      obtain u where u: "unmute s' = Return () u"
        using unmute_returns by blast
      from unmute_keeps [of s'] e Raise Cons.prems
      have 1: "current_question (trk u) \<noteq> Some k"
        and 2: "points (trk u) k = points (trk s) k"
        and 3: "current_question (trk u) = current_question (trk s)"
        by (simp_all add: u)
      from Cons.IH [OF 1] 2 3 Raise True u show ?thesis
        by (simp add: t scripted_Cons)
    qed
  qed
qed


lemma and_then_Return:
  assumes "and_then m f = Return a s'"
  obtains b s1 where "m = Return b s1" "f b s1 = Return a s'"
  using assms by (cases m) simp_all

lemma begin_q_Return:
  assumes "begin_q q s = Return b s1"
  shows "b \<and> (\<exists>m. maxes (trk s) q = Some m \<and>
           s1 = s\<lparr> trk := (trk s)\<lparr> current_question := Some q,
                                     possible_points_remaining := Some m \<rparr> \<rparr>)"
  using assms by (auto simp: begin_q_def Let_def split: if_splits option.splits)

lemma end_q_Return:
  assumes "end_q s = Return u s'"
  shows "possible_points_remaining (trk s) = Some 0 \<and>
         s' = s\<lparr> trk := (trk s)\<lparr> current_question := None,
                                   possible_points_remaining := None \<rparr> \<rparr>"
  using assms by (auto simp: end_q_def split: if_splits)

text \<open>One pass of the outer loop, taken apart.\<close>

lemma run_question_Return:
  assumes "run_questions (q # qs) tests s = Return () s'"
  obtains s1 s2 s3 where "begin_q q s = Return True s1" "run_tests tests q s1 = Return () s2"
    "end_q s2 = Return () s3" "run_questions qs tests s3 = Return () s'"
proof -
  from assms obtain b s1 where b: "begin_q q s = Return b s1"
    and r1: "(if \<not> b then run_questions qs tests s1
              else and_then (run_tests tests q s1)
                     (\<lambda>_ s2. and_then (end_q s2) (\<lambda>_. run_questions qs tests))) = Return () s'"
    by (auto elim: and_then_Return)
  from begin_q_Return [OF b] have "b" by simp
  with r1 obtain u s2 where t: "run_tests tests q s1 = Return u s2"
    and r2: "and_then (end_q s2) (\<lambda>_. run_questions qs tests) = Return () s'"
    by (auto elim: and_then_Return)
  from r2 obtain v s3 where e: "end_q s2 = Return v s3"
    and r3: "run_questions qs tests s3 = Return () s'"
    by (auto elim: and_then_Return)
  from that [of s1 s2 s3] b \<open>b\<close> t e r3 show thesis by simp
qed

text \<open>Questions processed before \<open>k\<close> leave its points alone.\<close>

lemma run_questions_other:
  assumes "run_questions qs (scripted reg) s = Return () s'"
    and "k \<notin> set qs"
    and "current_question (trk s) \<noteq> Some k"
  shows "points (trk s') k = points (trk s) k \<and> current_question (trk s') \<noteq> Some k"
  using assms
proof (induction qs arbitrary: s)
  case Nil
  then show ?case by simp
next
  case (Cons q' qs)
  from Cons.prems(1) obtain s1 s2 s3 where b: "begin_q q' s = Return True s1"
    and t: "run_tests (scripted reg) q' s1 = Return () s2"
    and e: "end_q s2 = Return () s3"
    and r: "run_questions qs (scripted reg) s3 = Return () s'"
    by (rule run_question_Return)
  from begin_q_Return [OF b] Cons.prems(2)
  have 1: "current_question (trk s1) \<noteq> Some k" and p1: "points (trk s1) k = points (trk s) k"
    by auto
  from run_tests_other [OF 1, of reg q'] t
  have p2: "points (trk s2) k = points (trk s1) k" by simp
  from end_q_Return [OF e]
  have 3: "current_question (trk s3) \<noteq> Some k" and p3: "points (trk s3) k = points (trk s2) k"
    by auto
  from Cons.IH [OF r _ 3] Cons.prems(2) p1 p2 p3 show ?case by simp
qed

lemma main_tracker_start:
  "points (main_tracker tests P) q =
     (if q \<in> set (questions (main_tracker tests P)) then Some 0 else None) \<and>
   current_question (main_tracker tests P) = None"
  by (simp add: main_tracker_def Tracker_init_def split: prod.splits)

text \<open>
  C9, as amended. Let the test functions be scripts of \<^verbatim>\<open>begin_test\<close>, \<^verbatim>\<open>add_points\<close> and
  \<^verbatim>\<open>end_test\<close> calls, any of which may raise, as may the test itself. Take a run of
  \<^verbatim>\<open>main\<close> on such a registry and a question \<open>q\<close> of it for which \<^verbatim>\<open>end_q()\<close> has returned.
  If the steps carried out while \<open>q\<close> was active pass to \<^verbatim>\<open>add_points\<close> in total at most
  what they pass to \<^verbatim>\<open>end_test\<close>, then \<^verbatim>\<open>points[q]\<close> is at most \<^verbatim>\<open>maxes[q]\<close> in the state
  \<^verbatim>\<open>end_q()\<close> leaves, from which \<^verbatim>\<open>main\<close> goes on to the later questions.
\<close>

theorem points_within_max:
  assumes "questions (main_tracker (scripted reg) P) = earlier @ q # later"
    and "run_questions (earlier @ [q]) (scripted reg) (loop_start (scripted reg) P s0)
           = Return () s3"
    and "awarded (calls_in_question reg P s0 earlier q)
           \<le> declared (calls_in_question reg P s0 earlier q)"
  shows "(\<exists>p m. points (trk s3) q = Some p \<and> maxes (trk s3) q = Some m \<and> p \<le> m) \<and>
         main (scripted reg) P s0 = run_questions later (scripted reg) s3"
proof -
  let ?tests = "scripted reg"
  let ?st = "loop_start ?tests P s0"
  from assms(2) obtain u s where early: "run_questions earlier ?tests ?st = Return u s"
    and this_q: "run_questions [q] ?tests s = Return () s3"
    unfolding run_questions_append by (rule and_then_Return)
  from this_q obtain s1 s2 s3' where b: "begin_q q s = Return True s1"
    and t: "run_tests ?tests q s1 = Return () s2"
    and e: "end_q s2 = Return () s3'"
    and "run_questions [] ?tests s3' = Return () s3"
    by (rule run_question_Return)
  then have s3: "s3' = s3" by simp
  have "distinct (questions (main_tracker ?tests P))"
    by (simp add: main_tracker_questions)
  with assms(1) have notin: "q \<notin> set earlier" by simp
  have st: "points (trk ?st) q = Some 0" and idle: "current_question (trk ?st) \<noteq> Some q"
    using main_tracker_start [of ?tests P q] assms(1) by (simp_all add: loop_start_def)
  from early have early': "run_questions earlier ?tests ?st = Return () s" by simp
  from run_questions_other [OF early' notin idle] st
  have p0: "points (trk s) q = Some 0" by simp
  from begin_q_Return [OF b] obtain m where m: "maxes (trk s) q = Some m"
    and s1: "s1 = s\<lparr> trk := (trk s)\<lparr> current_question := Some q,
                                      possible_points_remaining := Some m \<rparr> \<rparr>"
    by auto
  have calls: "calls_in_question reg P s0 earlier q = calls_made reg q s1"
    by (simp add: calls_in_question_def early b)
  have "current_question (trk s1) = Some q" "points (trk s1) q = Some 0"
    "possible_points_remaining (trk s1) = Some m"
    using p0 by (simp_all add: s1)
  from run_tests_effect [OF this, of reg] t
  have p2: "points (trk s2) q = Some (awarded (calls_made reg q s1))"
    and r2: "possible_points_remaining (trk s2) = Some (m - declared (calls_made reg q s1))"
    and m2: "maxes (trk s2) = maxes (trk s1)"
    by simp_all
  from end_q_Return [OF e] s3
  have z: "possible_points_remaining (trk s2) = Some 0"
    and same: "points (trk s3) = points (trk s2)" "maxes (trk s3) = maxes (trk s2)"
    by auto
  from r2 z have "declared (calls_made reg q s1) = m" by simp
  with assms(3) calls have "awarded (calls_made reg q s1) \<le> m" by simp
  with p2 same m2 m s1
  have 1: "\<exists>p m. points (trk s3) q = Some p \<and> maxes (trk s3) q = Some m \<and> p \<le> m"
    by simp
  have "main ?tests P s0 = run_questions ((earlier @ [q]) @ later) ?tests ?st"
    using assms(1) by (simp add: main_def Let_def loop_start_def)
  also have "\<dots> = run_questions later ?tests s3"
    unfolding run_questions_append [of "earlier @ [q]"] assms(2) by simp
  finally show ?thesis using 1 by simp
qed


text \<open>Both tests of \<open>q1\<close> raise after awarding a point: the first in \<^verbatim>\<open>end_test\<close>, which
  has already taken its weight off the remaining total, the second by itself. The
  driver swallows both, \<^verbatim>\<open>end_q\<close> returns, and two points stand against a maximum of two.\<close>

theorem points_within_max_witness:
  "calls_in_question swallowed Map.empty start_state [] ''q1'' =
     [Add_points 1, End_test 2, Add_points 1, Throw AssertionError] \<and>
   returned (main (scripted swallowed) Map.empty start_state) \<and>
   (\<exists>p m. points (trk (state_of (main (scripted swallowed) Map.empty start_state))) ''q1''
            = Some p \<and>
          maxes (trk (state_of (main (scripted swallowed) Map.empty start_state))) ''q1''
            = Some m \<and> p \<le> m)"
proof -
  let ?tests = "scripted swallowed"
  let ?st = "loop_start ?tests Map.empty start_state"
  let ?s3 = "state_of (run_questions [''q1''] ?tests ?st)"
  have t: "main_tracker ?tests Map.empty =
      Tracker_init [''q1''] [''q1'' \<mapsto> 2] [''q1'' \<mapsto> {}] False"
    by (simp add: main_tracker_def scripted_def swallowed_def)
  have h1: "questions (main_tracker ?tests Map.empty) = [] @ ''q1'' # []"
    by (simp add: t Tracker_init_def)
  have run: "returned (run_questions [''q1''] ?tests ?st)"
    unfolding loop_start_def t
    by (simp add: scripted_def swallowed_def tracker_ops Tracker_init_def
        disable_graphics_def start_state_def)
  then have h2: "run_questions ([] @ [''q1'']) ?tests ?st = Return () ?s3"
    by (cases "run_questions [''q1''] ?tests ?st") simp_all
  have calls: "calls_in_question swallowed Map.empty start_state [] ''q1'' =
      [Add_points 1, End_test 2, Add_points 1, Throw AssertionError]"
    unfolding calls_in_question_def loop_start_def t
    by (simp add: swallowed_def tracker_ops Tracker_init_def disable_graphics_def
        start_state_def)
  have h3: "awarded (calls_in_question swallowed Map.empty start_state [] ''q1'')
      \<le> declared (calls_in_question swallowed Map.empty start_state [] ''q1'')"
    by (simp add: calls)
  from points_within_max [OF h1 h2 h3]
  have "\<exists>p m. points (trk ?s3) ''q1'' = Some p \<and> maxes (trk ?s3) ''q1'' = Some m \<and> p \<le> m"
    and "main ?tests Map.empty start_state = Return () ?s3"
    by simp_all
  with calls show ?thesis by simp
qed

text \<open>C9 as stated fails: nothing caps \<^verbatim>\<open>add_points\<close>. A test of weight two awards five
  points, \<^verbatim>\<open>end_q\<close> returns, and \<^verbatim>\<open>points[q1]\<close> is five against a maximum of two.\<close>

theorem points_above_max_counterexample:
  "returned (main greedy Map.empty start_state) \<and>
   points (trk (state_of (main greedy Map.empty start_state))) ''q1'' = Some 5 \<and>
   maxes (trk (state_of (main greedy Map.empty start_state))) ''q1'' = Some 2"
proof -
  have t: "main_tracker greedy Map.empty =
      Tracker_init [''q1''] [''q1'' \<mapsto> 2] [''q1'' \<mapsto> {}] False"
    by (simp add: main_tracker_def greedy_def)
  show ?thesis
    unfolding main_def Let_def t
    by (simp add: greedy_def tracker_ops Tracker_init_def disable_graphics_def
        start_state_def)
qed

subsection \<open>The graph tracer\<close>

text \<open>More recursion depth never changes a result.\<close>

lemma for_each_mono:
  assumes "\<And>x st r. x \<in> set xs \<Longrightarrow> f x st = Some r \<Longrightarrow> g x st = Some r"
    and "for_each f xs st = Some r"
  shows "for_each g xs st = Some r"
  using assms
proof (induction xs arbitrary: st)
  case Nil
  then show ?case by simp
next
  case (Cons x xs)
  from Cons.prems(2) obtain st' where 1: "f x st = Some st'" and 2: "for_each f xs st' = Some r"
    by (cases "f x st") simp_all
  from Cons.prems(1) [OF _ 1] have "g x st = Some st'" by simp
  moreover from Cons.IH [OF _ 2] Cons.prems(1) have "for_each g xs st' = Some r" by simp
  ultimately show ?case by simp
qed

lemma visit_Suc_mono:
  "visit n parents x st = Some r \<Longrightarrow> visit (Suc n) parents x st = Some r"
proof (induction n arbitrary: x st r)
  case 0
  then show ?case by simp
next
  case (Suc n)
  obtain V T where st: "st = (V, T)" by (cases st)
  show ?case
  proof (cases "x \<in> V")
    case True
    with Suc.prems have "r = (V, T)" by (simp add: st)
    with True show ?thesis by (simp add: st)
  next
    case False
    with Suc.prems st obtain V' T' where
      fe: "for_each (visit n parents) (parents x) (V, T) = Some (V', T')"
      and r: "r = (insert x V', T' @ [x])"
      by (auto split: option.splits)
    from for_each_mono [of "parents x" "visit n parents" "visit (Suc n) parents", OF _ fe] Suc.IH
    have "for_each (visit (Suc n) parents) (parents x) (V, T) = Some (V', T')"
      by blast
    with False st r show ?thesis by simp
  qed
qed

lemma visit_mono:
  assumes "n \<le> m" "visit n parents x st = Some r"
  shows "visit m parents x st = Some r"
  using assms by (induction m rule: dec_induct) (simp_all add: visit_Suc_mono)

lemma reachable_self: "x \<in> reachable parents x"
  by (simp add: reachable_def)

lemma reachable_step:
  "reachable parents x = insert x (\<Union>p \<in> set (parents x). reachable parents p)"
proof
  show "reachable parents x \<subseteq> insert x (\<Union>p \<in> set (parents x). reachable parents p)"
  proof
    fix y assume "y \<in> reachable parents x"
    then have "(x, y) \<in> (parent_rel parents)\<^sup>*" by (simp add: reachable_def)
    then show "y \<in> insert x (\<Union>p \<in> set (parents x). reachable parents p)"
      by (cases rule: converse_rtranclE) (auto simp: reachable_def parent_rel_def)
  qed
next
  show "insert x (\<Union>p \<in> set (parents x). reachable parents p) \<subseteq> reachable parents x"
    by (auto simp: reachable_def parent_rel_def intro: converse_rtrancl_into_rtrancl)
qed

lemma reachable_parent:
  "x \<in> reachable parents root \<Longrightarrow> p \<in> set (parents x) \<Longrightarrow> p \<in> reachable parents root"
  by (auto simp: reachable_def parent_rel_def intro: rtrancl_into_rtrancl)

lemma reachable_trans:
  "p \<in> reachable parents x \<Longrightarrow> reachable parents p \<subseteq> reachable parents x"
  by (auto simp: reachable_def)

lemma closed_reachable:
  assumes "closed parents V" "x \<in> V"
  shows "reachable parents x \<subseteq> V"
proof
  fix y assume "y \<in> reachable parents x"
  then have "(x, y) \<in> (parent_rel parents)\<^sup>*" by (simp add: reachable_def)
  then show "y \<in> V"
    using assms by (induction rule: rtrancl_induct) (auto simp: closed_def parent_rel_def)
qed

lemma closed_union_reachable:
  "closed parents V \<Longrightarrow> closed parents (V \<union> reachable parents x)"
  unfolding closed_def
  by (auto simp: reachable_def parent_rel_def intro: rtrancl_into_rtrancl)

lemma acyclic_parent_not_reach:
  assumes "acyclic (parent_rel parents)" "p \<in> set (parents x)"
  shows "x \<notin> reachable parents p"
proof
  assume "x \<in> reachable parents p"
  then have "(p, x) \<in> (parent_rel parents)\<^sup>*" by (simp add: reachable_def)
  moreover have "(x, p) \<in> parent_rel parents" using assms(2) by (simp add: parent_rel_def)
  ultimately have "(x, x) \<in> (parent_rel parents)\<^sup>+" by (rule rtrancl_into_trancl2[rotated])
  with assms(1) show False by (simp add: acyclic_def)
qed


lemma for_each_visit:
  assumes IH: "\<And>p V T. p \<in> set ps \<Longrightarrow> closed parents V \<Longrightarrow> set T = V \<Longrightarrow> distinct T \<Longrightarrow>
      \<exists>n T'. visit n parents p (V, T) = Some (V \<union> reachable parents p, T') \<and>
             set T' = V \<union> reachable parents p \<and> distinct T'"
    and "closed parents V" "set T = V" "distinct T"
  shows "\<exists>n T'. for_each (visit n parents) ps (V, T) =
             Some (V \<union> (\<Union>p \<in> set ps. reachable parents p), T') \<and>
           set T' = V \<union> (\<Union>p \<in> set ps. reachable parents p) \<and> distinct T'"
  using assms
proof (induction ps arbitrary: V T)
  case Nil
  then show ?case by simp
next
  case (Cons p ps)
  let ?V1 = "V \<union> reachable parents p"
  from Cons.prems(1) [of p V T] Cons.prems(2,3,4)
  obtain n1 T1 where v1: "visit n1 parents p (V, T) = Some (?V1, T1)"
    and t1: "set T1 = ?V1" "distinct T1"
    by auto
  have c1: "closed parents ?V1"
    using Cons.prems(2) by (rule closed_union_reachable)
  have "\<exists>n T'. for_each (visit n parents) ps (?V1, T1) =
             Some (?V1 \<union> (\<Union>p \<in> set ps. reachable parents p), T') \<and>
           set T' = ?V1 \<union> (\<Union>p \<in> set ps. reachable parents p) \<and> distinct T'"
  proof (rule Cons.IH [OF _ c1 t1])
    fix p' V' T'
    assume "p' \<in> set ps" "closed parents V'" "set T' = V'" "distinct T'"
    then show "\<exists>n T''. visit n parents p' (V', T') = Some (V' \<union> reachable parents p', T'') \<and>
             set T'' = V' \<union> reachable parents p' \<and> distinct T''"
      using Cons.prems(1) [of p' V' T'] by simp
  qed
  then obtain n2 T2 where
    f2: "for_each (visit n2 parents) ps (?V1, T1) =
           Some (?V1 \<union> (\<Union>p \<in> set ps. reachable parents p), T2)"
    and t2: "set T2 = ?V1 \<union> (\<Union>p \<in> set ps. reachable parents p)" "distinct T2"
    by auto
  let ?n = "max n1 n2"
  have "visit ?n parents p (V, T) = Some (?V1, T1)"
    using v1 by (rule visit_mono [rotated]) simp
  moreover have "for_each (visit ?n parents) ps (?V1, T1) =
      Some (?V1 \<union> (\<Union>p \<in> set ps. reachable parents p), T2)"
    using f2 by (rule for_each_mono [rotated]) (rule visit_mono [of n2], simp_all)
  moreover have "?V1 \<union> (\<Union>p \<in> set ps. reachable parents p) =
      V \<union> (\<Union>p \<in> set (p # ps). reachable parents p)"
    by auto
  ultimately have "for_each (visit ?n parents) (p # ps) (V, T) =
      Some (V \<union> (\<Union>p \<in> set (p # ps). reachable parents p), T2) \<and>
      set T2 = V \<union> (\<Union>p \<in> set (p # ps). reachable parents p) \<and> distinct T2"
    using t2 by simp
  then show ?case by blast
qed

lemma wf_parents:
  assumes "acyclic (parent_rel parents)" "finite (reachable parents root)"
  shows "wf {(p, x). x \<in> reachable parents root \<and> p \<in> set (parents x)}"
proof (rule finite_acyclic_wf)
  let ?r = "{(p, x). x \<in> reachable parents root \<and> p \<in> set (parents x)}"
  have "?r \<subseteq> reachable parents root \<times> reachable parents root"
    using reachable_parent [of _ parents root] by auto
  with assms(2) show "finite ?r"
    by (meson finite_SigmaI finite_subset)
  have "?r \<subseteq> (parent_rel parents)\<inverse>"
    by (auto simp: parent_rel_def)
  with assms(1) show "acyclic ?r"
    by (meson acyclic_converse acyclic_subset)
qed

lemma visit_correct:
  assumes ac: "acyclic (parent_rel parents)" and fin: "finite (reachable parents root)"
  shows "x \<in> reachable parents root \<Longrightarrow> closed parents V \<Longrightarrow> set T = V \<Longrightarrow> distinct T \<Longrightarrow>
      \<exists>n T'. visit n parents x (V, T) = Some (V \<union> reachable parents x, T') \<and>
             set T' = V \<union> reachable parents x \<and> distinct T'"
proof (induction x arbitrary: V T rule: wf_induct_rule [OF wf_parents [OF ac fin]])
  case (1 x)
  show ?case
  proof (cases "x \<in> V")
    case True
    with closed_reachable [OF "1.prems"(2) True] have "V \<union> reachable parents x = V"
      by auto
    with True "1.prems"(3,4) have "visit (Suc 0) parents x (V, T) = Some (V \<union> reachable parents x, T) \<and>
        set T = V \<union> reachable parents x \<and> distinct T"
      by simp
    then show ?thesis by blast
  next
    case False
    let ?W = "V \<union> (\<Union>p \<in> set (parents x). reachable parents p)"
    have "\<exists>n T'. for_each (visit n parents) (parents x) (V, T) = Some (?W, T') \<and>
        set T' = ?W \<and> distinct T'"
    proof (rule for_each_visit [OF _ "1.prems"(2,3,4)])
      fix p V' T'
      assume p: "p \<in> set (parents x)" and "closed parents V'" "set T' = V'" "distinct T'"
      moreover have "p \<in> reachable parents root"
        using "1.prems"(1) p by (rule reachable_parent)
      ultimately show "\<exists>n T''. visit n parents p (V', T') = Some (V' \<union> reachable parents p, T'') \<and>
          set T'' = V' \<union> reachable parents p \<and> distinct T''"
        using "1.IH" [of p V' T'] "1.prems"(1) by simp
    qed
    then obtain n T' where fe: "for_each (visit n parents) (parents x) (V, T) = Some (?W, T')"
      and t': "set T' = ?W" "distinct T'"
      by auto
    have "x \<notin> ?W"
      using False acyclic_parent_not_reach [OF ac] by auto
    moreover have "insert x ?W = V \<union> reachable parents x"
      by (subst (2) reachable_step) simp
    ultimately have "visit (Suc n) parents x (V, T) = Some (V \<union> reachable parents x, T' @ [x]) \<and>
        set (T' @ [x]) = V \<union> reachable parents x \<and> distinct (T' @ [x])"
      using False fe t' by simp
    then show ?thesis by blast
  qed
qed

lemma trace_run_total:
  assumes "acyclic (parent_rel parents)" "finite (reachable parents root)"
  shows "\<exists>n tape. trace_run n parents root = Some (reachable parents root, tape) \<and>
           set tape = reachable parents root \<and> distinct tape"
  using visit_correct [OF assms reachable_self, of "{}" "[]"]
  by (simp add: trace_run_def closed_def)

lemma trace_run_unique:
  assumes "acyclic (parent_rel parents)" "finite (reachable parents root)"
    and "trace_run n parents root = Some (nodes, tape)"
  shows "nodes = reachable parents root \<and> set tape = nodes \<and> distinct tape"
proof -
  from trace_run_total [OF assms(1,2)] obtain n0 tape0 where
    0: "trace_run n0 parents root = Some (reachable parents root, tape0)"
    and t0: "set tape0 = reachable parents root" "distinct tape0"
    by auto
  have "visit (max n n0) parents root ({}, []) = Some (nodes, tape)"
    using assms(3) unfolding trace_run_def by (rule visit_mono [rotated]) simp
  moreover have "visit (max n n0) parents root ({}, []) = Some (reachable parents root, tape0)"
    using 0 unfolding trace_run_def by (rule visit_mono [rotated]) simp
  ultimately show ?thesis using t0 by simp
qed

text \<open>
  C1. On a graph whose parents relation is acyclic, with finitely many nodes reachable from
  the root, \<^verbatim>\<open>trace_node(root)\<close> returns, and what it returns is exactly the set of nodes
  reachable from the root, the root included. The tape holds each of these nodes once.
\<close>

theorem trace_node_reachable:
  assumes "acyclic (parent_rel parents)" "finite (reachable parents root)"
  shows "(\<exists>n. trace_node n parents root = Some (reachable parents root)) \<and>
         (\<forall>n nodes. trace_node n parents root = Some nodes \<longrightarrow>
            nodes = reachable parents root) \<and>
         (\<forall>n nodes tape. trace_run n parents root = Some (nodes, tape) \<longrightarrow>
            nodes = reachable parents root \<and> set tape = nodes \<and> distinct tape)"
proof -
  from trace_run_total [OF assms] obtain n0 tape0 where
    "trace_run n0 parents root = Some (reachable parents root, tape0)"
    by auto
  then have "trace_node n0 parents root = Some (reachable parents root)"
    by (simp add: trace_node_def)
  then have 1: "\<exists>n. trace_node n parents root = Some (reachable parents root)" ..
  have 3: "nodes = reachable parents root \<and> set tape = nodes \<and> distinct tape"
    if "trace_run n parents root = Some (nodes, tape)" for n nodes tape
    using trace_run_unique [OF assms that] .
  have 2: "nodes = reachable parents root"
    if "trace_node n parents root = Some nodes" for n nodes
  proof -
    from that obtain tape where "trace_run n parents root = Some (nodes, tape)"
      by (auto simp: trace_node_def)
    from 3 [OF this] show ?thesis by simp
  qed
  from 1 2 3 show ?thesis by blast
qed

lemma diamond_acyclic: "acyclic (parent_rel diamond)"
proof (rule acyclicI_order [where f = diamond_rank])
  fix a b
  assume "(a, b) \<in> parent_rel diamond"
  then show "diamond_rank b < diamond_rank a"
    by (cases a) (auto simp: parent_rel_def)
qed

lemma diamond_finite: "finite (S :: diamond_node set)"
proof -
  have "x \<in> {A, B, C, D}" for x :: diamond_node
    by (cases x) simp_all
  then have u: "(UNIV :: diamond_node set) = {A, B, C, D}"
    by blast
  have "finite (UNIV :: diamond_node set)"
    by (subst u) simp
  then show ?thesis by (rule rev_finite_subset) simp
qed

text \<open>The diamond: \<open>A\<close> is reached through \<open>B\<close> and through \<open>C\<close>, and is on the tape once.\<close>

theorem trace_node_reachable_witness:
  "reachable diamond D = {A, B, C, D} \<and>
   trace_node 3 diamond D = Some {A, B, C, D} \<and>
   trace_run 3 diamond D = Some ({A, B, C, D}, [A, B, C, D])"
proof -
  have run: "trace_run 3 diamond D = Some ({A, B, C, D}, [A, B, C, D])"
    by code_simp
  note all = trace_node_reachable [OF diamond_acyclic diamond_finite, of D]
  note any_run = all [THEN conjunct2, THEN conjunct2, rule_format]
  from any_run [OF run] have "{A, B, C, D} = reachable diamond D"
    by (rule conjunct1)
  with run show ?thesis by (simp add: trace_node_def)
qed

text \<open>
  C2. On a finite acyclic graph the traversal returns for every large enough bound on the
  recursion depth. A root without parents is handled by the outermost call of \<^verbatim>\<open>visit\<close>
  alone.
\<close>

theorem trace_node_terminates:
  "(acyclic (parent_rel parents) \<and> finite (reachable parents root) \<longrightarrow>
      (\<exists>N. \<forall>n\<ge>N. trace_node n parents root \<noteq> None)) \<and>
   (parents root = [] \<longrightarrow> trace_run (Suc 0) parents root = Some ({root}, [root]))"
proof -
  have "\<exists>N. \<forall>n\<ge>N. trace_node n parents root \<noteq> None"
    if "acyclic (parent_rel parents)" "finite (reachable parents root)"
  proof -
    from trace_run_total [OF that] obtain n0 tape0 where
      0: "trace_run n0 parents root = Some (reachable parents root, tape0)"
      by auto
    have "trace_node n parents root \<noteq> None" if "n0 \<le> n" for n
      using visit_mono [OF that 0 [unfolded trace_run_def]]
      by (simp add: trace_node_def trace_run_def)
    then show ?thesis by blast
  qed
  then show ?thesis by (simp add: trace_run_def)
qed

theorem trace_node_terminates_witness:
  "(\<exists>N. \<forall>n\<ge>N. trace_node n diamond D \<noteq> None) \<and>
   trace_run (Suc 0) diamond A = Some ({A}, [A])"
  using trace_node_terminates [of diamond D] trace_node_terminates [of diamond A]
    diamond_acyclic diamond_finite
  by simp



end
